theory Spec2Isabelle
  imports Main
begin

section \<open>URL matching of redux-first-router: \<open>src/utils/matchUrl.js\<close>\<close>

text \<open>
  The module exports one function, \<open>matchUrl\<close>, and keeps three module-level variables:
  the objects \<open>queries\<close> and \<open>patternCache\<close> and the number \<open>cacheCount\<close>. The model
  passes them around as a record. JavaScript values are modelled as follows.

  \<^item> A captured group that is \<open>undefined\<close> is \<open>None\<close> of \<open>string option\<close>. A value read
    from an object is a \<open>jsval\<close>: \<open>undefined\<close>, a string, or some other value.
  \<^item> A plain object used as a dictionary is a map of its own properties. Such an object
    inherits the members of \<open>Object.prototype\<close> (\<open>constructor\<close>, \<open>toString\<close>, ...), so
    a name that was never stored reads as \<open>undefined\<close> only when it is not the name of
    such a member; otherwise the read gives that member, which is truthy. This holds
    for the buckets of \<open>patternCache\<close>, for \<open>queries\<close> and for the \<open>{}\<close> that
    \<open>matchQuery\<close> takes for an empty search string. Whether the objects that
    \<open>qs.parse\<close> returns inherit from \<open>Object.prototype\<close> is a parameter (\<open>qs_plain\<close>).
  \<^item> The three imported functions (\<open>parsePath\<close>, \<open>pathToRegexp\<close>, \<open>qs.parse\<close>) are
    parameters, collected in the record \<open>env\<close>, and so are the properties of the members
    of \<open>Object.prototype\<close> and their conversions to strings. \<open>pathToRegexp\<close> throws on
    a malformed pattern; this is the value \<open>None\<close>, and the functions that call it
    return a sum. The other error is the \<open>TypeError\<close> of \<open>re.exec\<close> when \<open>re\<close> is
    \<open>undefined\<close>.
    Callbacks supplied by the caller (\<open>transform\<close>, predicate matchers) are taken to
    be pure and to return, and a RegExp matcher to be without the flags \<open>g\<close> and \<open>y\<close>
    (with them \<open>test\<close> keeps a position in the RegExp between calls).
  \<^item> Fields of different object types that share a name are told apart by a letter:
    \<open>mquery\<close> and \<open>mhash\<close> are \<open>query\<close> and \<open>hash\<close> of the matchers; \<open>rhash\<close>,
    \<open>rmatchers\<close> and \<open>rpartial\<close> are \<open>hash\<close>, \<open>matchers\<close> and \<open>partial\<close> of the result.
  \<^item> Two components of the state are not variables of the module. They record what the
    runtime does: \<open>nextOid\<close> hands out the identity of each \<open>{ re, keys }\<close> object that
    \<open>compilePath\<close> allocates, so that "the same object" can be told from "an equal
    object"; \<open>parseCalls\<close> lists the arguments with which \<open>qs.parse\<close> has been called.
\<close>

subsection \<open>Data\<close>

text \<open>The result of \<open>re.exec(path)\<close> when it is not \<open>null\<close>: index 0 of the array (the matched
  substring) and the captured groups after it; a group that took no part is \<open>undefined\<close>.\<close>

type_synonym match = "string \<times> string option list"

text \<open>A regular expression, by what \<open>exec\<close> returns (\<open>None\<close> is \<open>null\<close>).\<close>

type_synonym regexp = "string \<Rightarrow> match option"

datatype key = Key (name: string)

text \<open>\<open>type Compiled = { re, keys }\<close>, with the identity of the object.\<close>

record compiled =
  oid :: nat
  re :: regexp
  keys :: "key list"

text \<open>
  What \<open>cache[pattern]\<close> gives when it is truthy: a stored \<open>{ re, keys }\<close> object, or the
  member of \<open>Object.prototype\<close> of that name.
\<close>

datatype found = Compiled compiled | Inherited string

text \<open>
  A value read from an object or handed to a matcher: \<open>undefined\<close>, a string, or any
  other value (a function, an object, a number), given by a name that tells it from
  other values and by its conversion to a string.
\<close>

datatype jsval = Undefined | Str string | Other string string

text \<open>\<open>type Location = { pathname, search, hash }\<close>; the first argument of \<open>matchUrl\<close> is a
  string or a Location.\<close>

record location =
  pathname :: string
  search :: string
  hash :: string

datatype loc = Raw string | Loc location

text \<open>
  A value of a matcher, by the cases \<open>matchVal\<close> tells apart with \<open>typeof\<close> and
  \<open>instanceof\<close>: a boolean, a string, a function (by the truthiness of what it returns
  on the observed value), a RegExp (by its \<open>test\<close> on a string), and any other value
  (by its truthiness: \<open>null\<close>, \<open>undefined\<close>, \<open>0\<close> are falsy, an object is truthy).
\<close>

datatype valueMatcher =
    MBool bool
  | MStr string
  | MFun "jsval \<Rightarrow> bool"
  | MRegExp "string \<Rightarrow> bool"
  | MOther bool

text \<open>\<open>type Matchers = { path, query?, hash? }\<close>. The object \<open>query\<close> is a list of its
  properties in the order \<open>for ... in\<close> visits them.\<close>

record matchers =
  path :: string
  mquery :: "(string \<times> valueMatcher) list option"
  mhash :: "valueMatcher option"

text \<open>The third argument of \<open>matchUrl\<close>; a field that is absent is \<open>None\<close>, and the default
  \<open>{}\<close> has all three absent.\<close>

record 'a options =
  partial :: "bool option"
  strict :: "bool option"
  transform :: "(string option \<Rightarrow> string \<Rightarrow> 'a) option"

text \<open>The own properties of a parsed query.\<close>

type_synonym query = "string \<rightharpoonup> string"

text \<open>
  What the local \<open>query\<close> of \<open>matchQuery\<close> can hold: an object with its own properties,
  which inherits from \<open>Object.prototype\<close> or not (the literal \<open>{}\<close> does), or a member
  of \<open>Object.prototype\<close>, by its name (what \<open>queries[search]\<close> gives for such a name).
\<close>

datatype queryObj = Obj (props: query) (plain: bool) | Member string

text \<open>The object \<open>matchUrl\<close> returns on a match; \<open>params\<close> is \<open>None\<close> when it is
  \<open>undefined\<close>.\<close>

record 'a matchResult =
  params :: "(string \<rightharpoonup> 'a) option"
  query :: queryObj
  rhash :: string
  matchedPath :: string
  rmatchers :: matchers
  rpartial :: bool

datatype error = PatternError | TypeError

text \<open>
  \<open>qs_plain\<close>: whether an object that \<open>qs.parse\<close> returns inherits from
  \<open>Object.prototype\<close>. \<open>memberString n\<close>: the conversion to a string of the member
  \<open>n\<close> of \<open>Object.prototype\<close>. \<open>memberGet n k\<close>: the property \<open>k\<close> of that member.
\<close>

record env =
  parsePath :: "string \<Rightarrow> location"
  pathToRegexp :: "string \<Rightarrow> bool \<Rightarrow> bool \<Rightarrow> (regexp \<times> key list) option"
  qs_parse :: "string \<Rightarrow> query"
  qs_plain :: bool
  memberString :: "string \<Rightarrow> string"
  memberGet :: "string \<Rightarrow> string \<Rightarrow> jsval"

text \<open>\<open>queries\<close> and the buckets of \<open>patternCache\<close> by their own properties.\<close>

record state =
  queries :: "string \<rightharpoonup> queryObj"
  patternCache :: "string \<rightharpoonup> (string \<rightharpoonup> compiled)"
  cacheCount :: nat
  nextOid :: nat
  parseCalls :: "string list"

definition cacheLimit :: nat where
  "cacheLimit = 10000"

definition init :: state where
  "init = \<lparr>queries = Map.empty, patternCache = Map.empty, cacheCount = 0,
           nextOid = 0, parseCalls = []\<rparr>"

subsection \<open>Members of \<open>Object.prototype\<close>\<close>

text \<open>The names every plain object inherits. Each of the members is a function, but
  \<open>__proto__\<close>, which reads as \<open>Object.prototype\<close> itself; all are truthy.\<close>

definition protoNames :: "string list" where
  "protoNames =
     [''constructor'', ''hasOwnProperty'', ''isPrototypeOf'', ''propertyIsEnumerable'',
      ''toLocaleString'', ''toString'', ''valueOf'', ''__proto__'',
      ''__defineGetter__'', ''__defineSetter__'', ''__lookupGetter__'', ''__lookupSetter__'']"

definition inherited :: "string \<Rightarrow> bool" where
  "inherited k \<longleftrightarrow> k \<in> set protoNames"

definition memberVal :: "env \<Rightarrow> string \<Rightarrow> jsval" where
  "memberVal env n = Other n (memberString env n)"

subsection \<open>compilePath\<close>

text \<open>\<open>const { partial = false, strict = false } = options\<close>\<close>

definition optFlag :: "bool option \<Rightarrow> bool" where
  "optFlag b = (case b of None \<Rightarrow> False | Some v \<Rightarrow> v)"

text \<open>\<open>`${partial ? 't' : 'f'}${strict ? 't' : 'f'}`\<close>\<close>

definition cacheKey :: "bool \<Rightarrow> bool \<Rightarrow> string" where
  "cacheKey pa st = [if pa then CHR ''t'' else CHR ''f'', if st then CHR ''t'' else CHR ''f'']"

text \<open>
  \<open>patternCache[cacheKey] || (patternCache[cacheKey] = {})\<close> creates the bucket before
  anything else, so it stays when \<open>pathToRegexp\<close> throws; none of the four keys is an
  inherited name. \<open>cache\<close> is the bucket itself, so \<open>cache[pattern] = compiledPattern\<close>
  is an update inside \<open>patternCache\<close>. \<open>if (cache[pattern]) return cache[pattern]\<close>
  returns what is stored for the pattern and, when nothing is stored and the pattern is
  the name of a member of \<open>Object.prototype\<close>, that member.
\<close>

definition compilePath ::
  "env \<Rightarrow> string \<Rightarrow> 'a options \<Rightarrow> state \<Rightarrow> (error + found) \<times> state" where
  "compilePath env pattern options s =
     (let pa = optFlag (partial options);
          st = optFlag (strict options);
          ck = cacheKey pa st;
          (cache, s1) =
            (case patternCache s ck of
               Some c \<Rightarrow> (c, s)
             | None \<Rightarrow> (Map.empty, s\<lparr>patternCache := (patternCache s)(ck \<mapsto> Map.empty)\<rparr>))
      in case cache pattern of
           Some c \<Rightarrow> (Inr (Compiled c), s1)
         | None \<Rightarrow>
             if inherited pattern then (Inr (Inherited pattern), s1)
             else
              (case pathToRegexp env pattern (\<not> pa) st of
                 None \<Rightarrow> (Inl PatternError, s1)
               | Some (r, ks) \<Rightarrow>
                   (let compiledPattern = \<lparr>oid = nextOid s1, re = r, keys = ks\<rparr>;
                        s2 = s1\<lparr>nextOid := Suc (nextOid s1)\<rparr>
                    in if cacheCount s2 < cacheLimit
                       then (Inr (Compiled compiledPattern),
                             s2\<lparr>patternCache :=
                                  (patternCache s2)(ck \<mapsto> cache(pattern \<mapsto> compiledPattern)),
                                cacheCount := Suc (cacheCount s2)\<rparr>)
                       else (Inr (Compiled compiledPattern), s2))))"

subsection \<open>matchPath\<close>

text \<open>
  \<open>const { re, keys } = compilePath(matcher, options)\<close> reads \<open>re\<close> and \<open>keys\<close> of what
  was returned. No member of \<open>Object.prototype\<close> has a property \<open>re\<close>, so for such a
  member \<open>re\<close> is \<open>undefined\<close> and \<open>re.exec(path)\<close> throws a \<open>TypeError\<close>.
\<close>

definition matchPath ::
  "env \<Rightarrow> string \<Rightarrow> string \<Rightarrow> 'a options \<Rightarrow> state
     \<Rightarrow> (error + match option \<times> key list) \<times> state" where
  "matchPath env p matcher options s =
     (case compilePath env matcher options s of
        (Inl e, s1) \<Rightarrow> (Inl e, s1)
      | (Inr (Compiled c), s1) \<Rightarrow> (Inr (re c p, keys c), s1)
      | (Inr (Inherited n), s1) \<Rightarrow> (Inl TypeError, s1))"

subsection \<open>matchVal\<close>

text \<open>\<open>expected.test(val)\<close> converts \<open>val\<close> to a string first; \<open>undefined\<close> becomes the
  string \<open>undefined\<close>.\<close>

fun toString :: "jsval \<Rightarrow> string" where
  "toString Undefined = ''undefined''"
| "toString (Str x) = x"
| "toString (Other n d) = d"

fun matchVal :: "jsval \<Rightarrow> valueMatcher \<Rightarrow> bool" where
  "matchVal val (MBool b) = (val \<noteq> Str '''' \<and> val \<noteq> Undefined)"
| "matchVal val (MStr expected) = (Str expected = val)"
| "matchVal val (MFun expected) = expected val"
| "matchVal val (MRegExp test) = test (toString val)"
| "matchVal val (MOther t) = True"

subsection \<open>parseSearch and matchQuery\<close>

text \<open>
  \<open>queries[search] || (queries[search] = qs.parse(search))\<close>: what is stored is an
  object, hence truthy, and so is an inherited member; the right operand runs exactly
  when nothing is stored and \<open>search\<close> is not the name of such a member.
\<close>

definition parseSearch :: "env \<Rightarrow> string \<Rightarrow> state \<Rightarrow> queryObj \<times> state" where
  "parseSearch env srch s =
     (case queries s srch of
        Some q \<Rightarrow> (q, s)
      | None \<Rightarrow>
          if inherited srch then (Member srch, s)
          else
           (let q = Obj (qs_parse env srch) (qs_plain env)
            in (q, s\<lparr>queries := (queries s)(srch \<mapsto> q),
                     parseCalls := srch # parseCalls s\<rparr>)))"

text \<open>
  \<open>query[key]\<close>: an own property is a string; a name that is not an own property reads
  as the inherited member when the object inherits from \<open>Object.prototype\<close> and has a
  member of that name, and as \<open>undefined\<close> otherwise. When \<open>query\<close> is itself a member
  of \<open>Object.prototype\<close>, the read is a property of that member.
\<close>

definition getProp :: "env \<Rightarrow> queryObj \<Rightarrow> string \<Rightarrow> jsval" where
  "getProp env q k =
     (case q of
        Obj ps pl \<Rightarrow>
          (case ps k of
             Some v \<Rightarrow> Str v
           | None \<Rightarrow> if pl \<and> inherited k then memberVal env k else Undefined)
      | Member n \<Rightarrow> memberGet env n k)"

text \<open>The loop \<open>for (const key in matcher)\<close> with its early \<open>return null\<close>: \<open>True\<close> when the
  loop runs to its end.\<close>

fun matchKeys :: "env \<Rightarrow> queryObj \<Rightarrow> (string \<times> valueMatcher) list \<Rightarrow> bool" where
  "matchKeys env q [] = True"
| "matchKeys env q ((k, expected) # rest) =
     (if \<not> matchVal (getProp env q k) expected then False else matchKeys env q rest)"

text \<open>\<open>search ? parseSearch(search) : {}\<close>: the literal \<open>{}\<close> has no own property and
  inherits from \<open>Object.prototype\<close>.\<close>

definition matchQuery ::
  "env \<Rightarrow> string \<Rightarrow> (string \<times> valueMatcher) list option \<Rightarrow> state
     \<Rightarrow> queryObj option \<times> state" where
  "matchQuery env srch matcher s =
     (let (q, s1) =
            (if srch \<noteq> '''' then parseSearch env srch s else (Obj Map.empty True, s))
      in case matcher of
           None \<Rightarrow> (Some q, s1)
         | Some m \<Rightarrow> (if matchKeys env q m then (Some q, s1) else (None, s1)))"

subsection \<open>matchUrl\<close>

text \<open>Truthiness of a matcher value, for \<open>matchers.hash && ...\<close>.\<close>

fun truthy :: "valueMatcher \<Rightarrow> bool" where
  "truthy (MBool b) = b"
| "truthy (MStr x) = (x \<noteq> '''')"
| "truthy (MFun f) = True"
| "truthy (MRegExp t) = True"
| "truthy (MOther t) = t"

text \<open>\<open>values[index]\<close>: reading an array past its end gives \<open>undefined\<close>.\<close>

definition valueAt :: "string option list \<Rightarrow> nat \<Rightarrow> string option" where
  "valueAt vals i = (if i < length vals then vals ! i else None)"

text \<open>\<open>keys.reduce((params, key, index) => { params[key.name] = ...; return params }, {})\<close>,
  from position \<open>index\<close> on.\<close>

fun reduceParams ::
  "(string option \<Rightarrow> string \<Rightarrow> 'a) \<Rightarrow> string option list \<Rightarrow> key list \<Rightarrow> nat
     \<Rightarrow> (string \<rightharpoonup> 'a) \<Rightarrow> (string \<rightharpoonup> 'a)" where
  "reduceParams t vals [] index ps = ps"
| "reduceParams t vals (k # ks) index ps =
     reduceParams t vals ks (Suc index) (ps(name k \<mapsto> t (valueAt vals index) (name k)))"

text \<open>\<open>typeof l === 'string' ? parsePath(l) : l\<close>\<close>

definition locationOf :: "env \<Rightarrow> loc \<Rightarrow> location" where
  "locationOf env l = (case l of Raw u \<Rightarrow> parsePath env u | Loc x \<Rightarrow> x)"

definition hashFails :: "string \<Rightarrow> valueMatcher option \<Rightarrow> bool" where
  "hashFails h m =
     (case m of None \<Rightarrow> False | Some e \<Rightarrow> truthy e \<and> \<not> matchVal (Str h) e)"

definition matchUrl ::
  "env \<Rightarrow> loc \<Rightarrow> matchers \<Rightarrow> 'a options \<Rightarrow> state
     \<Rightarrow> (error + 'a matchResult option) \<times> state" where
  "matchUrl env l ms options s =
     (let lc = locationOf env l
      in case matchPath env (pathname lc) (path ms) options s of
           (Inl e, s1) \<Rightarrow> (Inl e, s1)
         | (Inr (None, ks), s1) \<Rightarrow> (Inr None, s1)
         | (Inr (Some (p, vals), ks), s1) \<Rightarrow>
             (case matchQuery env (search lc) (mquery ms) s1 of
                (None, s2) \<Rightarrow> (Inr None, s2)
              | (Some q, s2) \<Rightarrow>
                  if hashFails (hash lc) (mhash ms) then (Inr None, s2)
                  else (Inr (Some
                         \<lparr>params =
                            (case transform options of
                               None \<Rightarrow> None
                             | Some t \<Rightarrow> Some (reduceParams t vals ks 0 Map.empty)),
                          query = q,
                          rhash = hash lc,
                          matchedPath = (if path ms = ''/'' \<and> p = '''' then ''/'' else p),
                          rmatchers = ms,
                          rpartial = optFlag (partial options)\<rparr>), s2)))"

text \<open>A call of \<open>matchUrl\<close>, and the state after a sequence of calls. A caller may catch
  the error of a malformed pattern and go on, so the state is kept in that case too.\<close>

datatype 'a request = Request loc matchers "'a options"

fun run :: "env \<Rightarrow> 'a request list \<Rightarrow> state \<Rightarrow> state" where
  "run env [] s = s"
| "run env (Request l ms options # rs) s = run env rs (snd (matchUrl env l ms options s))"

text \<open>What is stored for a pattern (as an own property of its bucket) under the flags
  \<open>partial\<close> and \<open>strict\<close>.\<close>

definition cached :: "state \<Rightarrow> bool \<Rightarrow> bool \<Rightarrow> string \<Rightarrow> compiled option" where
  "cached s pa st pattern =
     (case patternCache s (cacheKey pa st) of None \<Rightarrow> None | Some b \<Rightarrow> b pattern)"

subsection \<open>Observers and a stand-in environment\<close>

text \<open>
  The caches agree with the functions they memoise: what \<open>queries\<close> holds for a search
  string is the object \<open>qs.parse\<close> gives for it, and what \<open>patternCache\<close> holds for a
  pattern under two flags has the regular expression and keys \<open>pathToRegexp\<close> gives for
  them; and nothing is stored under the name of a member of \<open>Object.prototype\<close>. Every
  state the module reaches is of this kind (\<open>consistent_run\<close> below).
\<close>

definition consistent :: "env \<Rightarrow> state \<Rightarrow> bool" where
  "consistent env s \<longleftrightarrow>
     (\<forall>k q. queries s k = Some q \<longrightarrow>
        \<not> inherited k \<and> q = Obj (qs_parse env k) (qs_plain env)) \<and>
     (\<forall>pa st p c. cached s pa st p = Some c \<longrightarrow>
        \<not> inherited p \<and> pathToRegexp env p (\<not> pa) st = Some (re c, keys c))"

text \<open>The local \<open>query\<close> of \<open>matchQuery\<close>: \<open>search ? parseSearch(search) : {}\<close>.\<close>

definition parsedQuery :: "env \<Rightarrow> string \<Rightarrow> state \<Rightarrow> queryObj" where
  "parsedQuery env srch s =
     (if srch = [] then Obj Map.empty True else fst (parseSearch env srch s))"

text \<open>
  Small stand-ins for the three imported functions, to evaluate the model at concrete
  inputs: a splitter at \<open>?\<close> and \<open>#\<close>; a compiler that knows the pattern \<open>/\<close> (which
  also matches the empty path), the pattern \<open>/users/:id\<close> with its one key, rejects the
  pattern \<open>(\<close> and takes any other pattern literally; and a parser that knows two
  query strings and returns objects without a prototype. The members of
  \<open>Object.prototype\<close> are given no property of their own.
\<close>

definition parsePath0 :: "string \<Rightarrow> location" where
  "parsePath0 u =
     (let isPath = (\<lambda>c. c \<noteq> CHR ''?'' \<and> c \<noteq> CHR ''#'');
          rest = dropWhile isPath u
      in \<lparr>pathname = takeWhile isPath u,
          search = takeWhile (\<lambda>c. c \<noteq> CHR ''#'') rest,
          hash = drop 1 (dropWhile (\<lambda>c. c \<noteq> CHR ''#'') rest)\<rparr>)"

definition pathToRegexp0 :: "string \<Rightarrow> bool \<Rightarrow> bool \<Rightarrow> (regexp \<times> key list) option" where
  "pathToRegexp0 pattern e st =
     (if pattern = ''('' then None
      else if pattern = ''/'' then
        Some (\<lambda>p. if p = [] \<or> p = ''/'' then Some (p, []) else None, [])
      else if pattern = ''/users/:id'' then
        Some (\<lambda>p. if take 7 p = ''/users/'' \<and> 7 < length p
                   then Some (p, [Some (drop 7 p)]) else None, [Key ''id''])
      else Some (\<lambda>p. if p = pattern then Some (p, []) else None, []))"

definition qs_parse0 :: "string \<Rightarrow> query" where
  "qs_parse0 srch =
     (if srch = ''?x=1'' then [''x'' \<mapsto> ''1'']
      else if srch = ''?x=2'' then [''x'' \<mapsto> ''2'']
      else Map.empty)"

definition env0 :: env where
  "env0 = \<lparr>parsePath = parsePath0, pathToRegexp = pathToRegexp0, qs_parse = qs_parse0,
            qs_plain = False, memberString = (\<lambda>n. ''function '' @ n @ ''()''),
            memberGet = (\<lambda>n k. Undefined)\<rparr>"

definition opts0 :: "string options" where
  "opts0 = \<lparr>partial = None, strict = None, transform = None\<rparr>"

text \<open>Calls of \<open>matchUrl\<close> with \<open>n\<close> different patterns: the empty one, \<open>a\<close>, \<open>aa\<close>, and
  so on.\<close>

definition fillRequests :: "nat \<Rightarrow> string request list" where
  "fillRequests n =
     map (\<lambda>i. Request (Loc \<lparr>pathname = [], search = [], hash = []\<rparr>)
                   \<lparr>path = replicate i CHR ''a'', mquery = None, mhash = None\<rparr> opts0)
       [0..<n]"

section \<open>Properties\<close>

subsection \<open>The value matcher\<close>

text \<open>
  C4. For a boolean matcher, whatever its value, \<open>matchVal\<close> is true exactly when the
  observed value is present and is not the empty string. So \<open>true\<close> against \<open>""\<close> fails
  and \<open>false\<close> against \<open>"x"\<close> passes.
\<close>

theorem matchVal_boolean:
  "matchVal v (MBool b) = (v \<noteq> Undefined \<and> v \<noteq> Str '''')
   \<and> matchVal v (MBool True) = matchVal v (MBool False)
   \<and> \<not> matchVal (Str '''') (MBool True)
   \<and> matchVal (Str ''x'') (MBool False)"
  by auto

subsection \<open>Auxiliary facts\<close>

lemma cacheKey_inj: "cacheKey pa st = cacheKey pa' st' \<longleftrightarrow> pa = pa' \<and> st = st'"
  by (auto simp: cacheKey_def split: if_splits)

lemma compilePath_hit:
  "cached s (optFlag (partial options)) (optFlag (strict options)) pattern = Some c
   \<Longrightarrow> compilePath env pattern options s = (Inr (Compiled c), s)"
  by (auto simp: compilePath_def cached_def Let_def split: option.splits)

lemma compilePath_inherited:
  assumes "cached s (optFlag (partial options)) (optFlag (strict options)) pattern = None"
    and "inherited pattern"
  shows "fst (compilePath env pattern options s) = Inr (Inherited pattern)"
    and "cached (snd (compilePath env pattern options s)) pa st p = cached s pa st p"
    and "cacheCount (snd (compilePath env pattern options s)) = cacheCount s"
    and "nextOid (snd (compilePath env pattern options s)) = nextOid s"
  using assms
  by (auto simp: compilePath_def cached_def Let_def cacheKey_inj split: option.splits)

lemma compilePath_throw:
  assumes "cached s (optFlag (partial options)) (optFlag (strict options)) pattern = None"
    and "\<not> inherited pattern"
    and "pathToRegexp env pattern (\<not> optFlag (partial options)) (optFlag (strict options)) = None"
  shows "fst (compilePath env pattern options s) = Inl PatternError"
    and "cached (snd (compilePath env pattern options s)) pa st p = cached s pa st p"
    and "cacheCount (snd (compilePath env pattern options s)) = cacheCount s"
    and "nextOid (snd (compilePath env pattern options s)) = nextOid s"
  using assms
  by (auto simp: compilePath_def cached_def Let_def cacheKey_inj split: option.splits)

lemma compilePath_insert:
  assumes "cached s (optFlag (partial options)) (optFlag (strict options)) pattern = None"
    and "\<not> inherited pattern"
    and "pathToRegexp env pattern (\<not> optFlag (partial options)) (optFlag (strict options)) = Some (r, ks)"
    and "cacheCount s < cacheLimit"
  shows "fst (compilePath env pattern options s)
           = Inr (Compiled \<lparr>oid = nextOid s, re = r, keys = ks\<rparr>)"
    and "cached (snd (compilePath env pattern options s)) pa st p =
          (if pa = optFlag (partial options) \<and> st = optFlag (strict options) \<and> p = pattern
           then Some \<lparr>oid = nextOid s, re = r, keys = ks\<rparr> else cached s pa st p)"
    and "cacheCount (snd (compilePath env pattern options s)) = Suc (cacheCount s)"
    and "nextOid (snd (compilePath env pattern options s)) = Suc (nextOid s)"
  using assms
  by (auto simp: compilePath_def cached_def Let_def cacheKey_inj split: option.splits)

lemma compilePath_full:
  assumes "cached s (optFlag (partial options)) (optFlag (strict options)) pattern = None"
    and "\<not> inherited pattern"
    and "pathToRegexp env pattern (\<not> optFlag (partial options)) (optFlag (strict options)) = Some (r, ks)"
    and "\<not> cacheCount s < cacheLimit"
  shows "fst (compilePath env pattern options s)
           = Inr (Compiled \<lparr>oid = nextOid s, re = r, keys = ks\<rparr>)"
    and "cached (snd (compilePath env pattern options s)) pa st p = cached s pa st p"
    and "cacheCount (snd (compilePath env pattern options s)) = cacheCount s"
    and "nextOid (snd (compilePath env pattern options s)) = Suc (nextOid s)"
  using assms
  by (auto simp: compilePath_def cached_def Let_def cacheKey_inj split: option.splits)

lemma compilePath_frame:
  "queries (snd (compilePath env pattern options s)) = queries s"
  "parseCalls (snd (compilePath env pattern options s)) = parseCalls s"
  by (auto simp: compilePath_def Let_def split: option.splits prod.splits)

lemma compilePath_cases:
  obtains (hit) c where "compilePath env pattern options s = (Inr (Compiled c), s)"
      "cached s (optFlag (partial options)) (optFlag (strict options)) pattern = Some c"
  | (proto) "cached s (optFlag (partial options)) (optFlag (strict options)) pattern = None"
      "inherited pattern"
  | (throw) "cached s (optFlag (partial options)) (optFlag (strict options)) pattern = None"
      "\<not> inherited pattern"
      "pathToRegexp env pattern (\<not> optFlag (partial options)) (optFlag (strict options)) = None"
  | (insert) r ks where
      "cached s (optFlag (partial options)) (optFlag (strict options)) pattern = None"
      "\<not> inherited pattern"
      "pathToRegexp env pattern (\<not> optFlag (partial options)) (optFlag (strict options)) = Some (r, ks)"
      "cacheCount s < cacheLimit"
  | (full) r ks where
      "cached s (optFlag (partial options)) (optFlag (strict options)) pattern = None"
      "\<not> inherited pattern"
      "pathToRegexp env pattern (\<not> optFlag (partial options)) (optFlag (strict options)) = Some (r, ks)"
      "\<not> cacheCount s < cacheLimit"
proof (cases "cached s (optFlag (partial options)) (optFlag (strict options)) pattern")
  case (Some c)
  then show ?thesis using hit compilePath_hit by blast
next
  case None
  then show ?thesis using proto throw insert full
    by (cases "pathToRegexp env pattern (\<not> optFlag (partial options)) (optFlag (strict options))";
        cases "inherited pattern") auto
qed

lemma cacheCount_compilePath_le:
  "cacheCount s \<le> cacheLimit \<Longrightarrow> cacheCount (snd (compilePath env pattern options s)) \<le> cacheLimit"
  by (cases rule: compilePath_cases [of env pattern options s])
     (simp_all add: compilePath_inherited compilePath_throw compilePath_insert compilePath_full)

lemma cacheCount_compilePath_latched:
  "cacheLimit \<le> cacheCount s \<Longrightarrow> cacheCount (snd (compilePath env pattern options s)) = cacheCount s"
  by (cases rule: compilePath_cases [of env pattern options s])
     (simp_all add: compilePath_inherited compilePath_throw compilePath_insert compilePath_full)

lemma cached_compilePath_latched:
  "cacheLimit \<le> cacheCount s \<Longrightarrow> cached (snd (compilePath env pattern options s)) pa st p = cached s pa st p"
  by (cases rule: compilePath_cases [of env pattern options s])
     (simp_all add: compilePath_inherited compilePath_throw compilePath_insert compilePath_full)

lemma parseSearch_frame:
  "patternCache (snd (parseSearch env srch s)) = patternCache s"
  "cacheCount (snd (parseSearch env srch s)) = cacheCount s"
  "nextOid (snd (parseSearch env srch s)) = nextOid s"
  by (auto simp: parseSearch_def Let_def split: option.splits)

lemma matchQuery_snd:
  "snd (matchQuery env srch m s) = (if srch \<noteq> [] then snd (parseSearch env srch s) else s)"
  by (simp add: matchQuery_def Let_def split: option.splits prod.splits)

lemma matchQuery_frame:
  "patternCache (snd (matchQuery env srch m s)) = patternCache s"
  "cacheCount (snd (matchQuery env srch m s)) = cacheCount s"
  "nextOid (snd (matchQuery env srch m s)) = nextOid s"
  by (simp_all add: matchQuery_snd parseSearch_frame)

lemma matchPath_snd: "snd (matchPath env p matcher options s) = snd (compilePath env matcher options s)"
  by (auto simp: matchPath_def split: prod.splits sum.splits found.splits)

lemma matchUrl_frame:
  "patternCache (snd (matchUrl env l ms options s)) = patternCache (snd (compilePath env (path ms) options s))"
  "cacheCount (snd (matchUrl env l ms options s)) = cacheCount (snd (compilePath env (path ms) options s))"
  "nextOid (snd (matchUrl env l ms options s)) = nextOid (snd (compilePath env (path ms) options s))"
proof -
  let ?lc = "locationOf env l"
  obtain r s1 where mp: "matchPath env (pathname ?lc) (path ms) options s = (r, s1)"
    by (cases "matchPath env (pathname ?lc) (path ms) options s")
  then have s1: "s1 = snd (compilePath env (path ms) options s)"
    using matchPath_snd [of env "pathname ?lc" "path ms" options s] by simp
  obtain q s2 where mq: "matchQuery env (search ?lc) (mquery ms) s1 = (q, s2)"
    by (cases "matchQuery env (search ?lc) (mquery ms) s1")
  then have s2: "patternCache s2 = patternCache s1" "cacheCount s2 = cacheCount s1" "nextOid s2 = nextOid s1"
    using matchQuery_frame [of env "search ?lc" "mquery ms" s1] by simp_all
  have "snd (matchUrl env l ms options s) = s1 \<or> snd (matchUrl env l ms options s) = s2"
    using mp mq by (auto simp: matchUrl_def Let_def split: sum.splits option.splits prod.splits)
  then show "patternCache (snd (matchUrl env l ms options s)) = patternCache (snd (compilePath env (path ms) options s))"
    "cacheCount (snd (matchUrl env l ms options s)) = cacheCount (snd (compilePath env (path ms) options s))"
    "nextOid (snd (matchUrl env l ms options s)) = nextOid (snd (compilePath env (path ms) options s))"
    using s1 s2 by auto
qed

lemma cached_cong: "patternCache s = patternCache s' \<Longrightarrow> cached s pa st p = cached s' pa st p"
  by (simp add: cached_def)

lemma cacheCount_run_le:
  "cacheCount s \<le> cacheLimit \<Longrightarrow> cacheCount (run env reqs s) \<le> cacheLimit"
proof (induction reqs arbitrary: s)
  case Nil
  then show ?case by simp
next
  case (Cons rq reqs)
  obtain l ms options where rq: "rq = Request l ms options" by (cases rq)
  have "cacheCount (snd (matchUrl env l ms options s)) \<le> cacheLimit"
    using Cons.prems by (simp add: matchUrl_frame cacheCount_compilePath_le)
  then show ?case using Cons.IH rq by simp
qed

lemma run_latched:
  "cacheLimit \<le> cacheCount s \<Longrightarrow>
   cacheCount (run env reqs s) = cacheCount s \<and> cached (run env reqs s) pa st p = cached s pa st p"
proof (induction reqs arbitrary: s)
  case Nil
  then show ?case by simp
next
  case (Cons rq reqs)
  obtain l ms options where rq: "rq = Request l ms options" by (cases rq)
  let ?s1 = "snd (matchUrl env l ms options s)"
  have c: "cacheCount ?s1 = cacheCount s"
    using Cons.prems by (simp add: matchUrl_frame cacheCount_compilePath_latched)
  have "cached ?s1 pa st p = cached (snd (compilePath env (path ms) options s)) pa st p"
    by (rule cached_cong) (simp add: matchUrl_frame)
  then have d: "cached ?s1 pa st p = cached s pa st p"
    using Cons.prems by (simp add: cached_compilePath_latched)
  show ?case using Cons.IH [of ?s1] Cons.prems c d rq by simp
qed

lemma consistent_init: "consistent env init"
  by (simp add: consistent_def init_def cached_def)

lemma consistent_compilePath:
  assumes "consistent env s"
  shows "consistent env (snd (compilePath env pattern options s))"
proof (cases rule: compilePath_cases [of env pattern options s])
  case (hit c)
  then show ?thesis using assms by simp
next
  case proto
  then show ?thesis using assms
    by (simp add: consistent_def compilePath_frame compilePath_inherited)
next
  case throw
  then show ?thesis using assms
    by (simp add: consistent_def compilePath_frame compilePath_throw)
next
  case (insert r ks)
  then show ?thesis using assms
    by (simp add: consistent_def compilePath_frame compilePath_insert)
next
  case (full r ks)
  then show ?thesis using assms
    by (simp add: consistent_def compilePath_frame compilePath_full)
qed

lemma matchPath_value:
  assumes "consistent env s"
  shows "fst (matchPath env x pattern options s) =
     (if inherited pattern then Inl TypeError
      else case pathToRegexp env pattern (\<not> optFlag (partial options))
                  (optFlag (strict options)) of
             None \<Rightarrow> Inl PatternError
           | Some (r, ks) \<Rightarrow> Inr (r x, ks))"
proof (cases rule: compilePath_cases [of env pattern options s])
  case (hit c)
  then have "\<not> inherited pattern \<and>
      pathToRegexp env pattern (\<not> optFlag (partial options)) (optFlag (strict options)) = Some (re c, keys c)"
    using assms by (simp add: consistent_def)
  then show ?thesis using hit by (simp add: matchPath_def)
next
  case proto
  then show ?thesis using compilePath_inherited(1) [of s options pattern env]
    by (cases "compilePath env pattern options s") (simp add: matchPath_def)
next
  case throw
  then show ?thesis using compilePath_throw(1) [of s options pattern env]
    by (cases "compilePath env pattern options s") (simp add: matchPath_def)
next
  case (insert r ks)
  then show ?thesis using compilePath_insert(1) [of s options pattern env r ks]
    by (cases "compilePath env pattern options s") (simp add: matchPath_def)
next
  case (full r ks)
  then show ?thesis using compilePath_full(1) [of s options pattern env r ks]
    by (cases "compilePath env pattern options s") (simp add: matchPath_def)
qed

lemma parseSearch_value:
  "consistent env s \<Longrightarrow>
     fst (parseSearch env srch s)
       = (if inherited srch then Member srch else Obj (qs_parse env srch) (qs_plain env))"
  by (auto simp: parseSearch_def consistent_def Let_def split: option.splits)

lemma consistent_parseSearch: "consistent env s \<Longrightarrow> consistent env (snd (parseSearch env srch s))"
  by (auto simp: parseSearch_def consistent_def cached_def Let_def split: option.splits)

lemma consistent_matchQuery: "consistent env s \<Longrightarrow> consistent env (snd (matchQuery env srch m s))"
  by (simp add: matchQuery_snd consistent_parseSearch)

lemma matchQuery_fst:
  "fst (matchQuery env srch m s) =
     (let q = (if srch \<noteq> [] then fst (parseSearch env srch s) else Obj Map.empty True)
      in case m of None \<Rightarrow> Some q | Some mm \<Rightarrow> if matchKeys env q mm then Some q else None)"
  by (simp add: matchQuery_def Let_def split: option.splits prod.splits)

lemma matchUrl_fst:
  "fst (matchUrl env l ms options s) =
     (case fst (matchPath env (pathname (locationOf env l)) (path ms) options s) of
        Inl e \<Rightarrow> Inl e
      | Inr (None, ks) \<Rightarrow> Inr None
      | Inr (Some (p, vals), ks) \<Rightarrow>
          (case fst (matchQuery env (search (locationOf env l)) (mquery ms)
                       (snd (compilePath env (path ms) options s))) of
             None \<Rightarrow> Inr None
           | Some q \<Rightarrow>
               if hashFails (hash (locationOf env l)) (mhash ms) then Inr None
               else Inr (Some
                      \<lparr>params =
                         (case transform options of
                            None \<Rightarrow> None
                          | Some t \<Rightarrow> Some (reduceParams t vals ks 0 Map.empty)),
                       query = q,
                       rhash = hash (locationOf env l),
                       matchedPath = (if path ms = ''/'' \<and> p = [] then ''/'' else p),
                       rmatchers = ms,
                       rpartial = optFlag (partial options)\<rparr>)))"
proof -
  obtain r s1 where mp: "matchPath env (pathname (locationOf env l)) (path ms) options s = (r, s1)"
    by (cases "matchPath env (pathname (locationOf env l)) (path ms) options s")
  then have s1: "snd (compilePath env (path ms) options s) = s1"
    using matchPath_snd [of env "pathname (locationOf env l)" "path ms" options s] by simp
  obtain q s2 where mq: "matchQuery env (search (locationOf env l)) (mquery ms) s1 = (q, s2)"
    by (cases "matchQuery env (search (locationOf env l)) (mquery ms) s1")
  show ?thesis
    unfolding s1 using mp mq
    by (simp add: matchUrl_def Let_def split: sum.splits option.splits prod.splits)
qed

lemma matchUrl_snd:
  "snd (matchUrl env l ms options s) =
     (case fst (matchPath env (pathname (locationOf env l)) (path ms) options s) of
        Inr (Some m, ks) \<Rightarrow>
          snd (matchQuery env (search (locationOf env l)) (mquery ms)
                 (snd (compilePath env (path ms) options s)))
      | _ \<Rightarrow> snd (compilePath env (path ms) options s))"
proof -
  obtain r s1 where mp: "matchPath env (pathname (locationOf env l)) (path ms) options s = (r, s1)"
    by (cases "matchPath env (pathname (locationOf env l)) (path ms) options s")
  then have s1: "snd (compilePath env (path ms) options s) = s1"
    using matchPath_snd [of env "pathname (locationOf env l)" "path ms" options s] by simp
  obtain q s2 where mq: "matchQuery env (search (locationOf env l)) (mquery ms) s1 = (q, s2)"
    by (cases "matchQuery env (search (locationOf env l)) (mquery ms) s1")
  show ?thesis
    unfolding s1 using mp mq
    by (simp add: matchUrl_def Let_def split: sum.splits option.splits prod.splits)
qed

lemma consistent_matchUrl:
  "consistent env s \<Longrightarrow> consistent env (snd (matchUrl env l ms options s))"
  by (simp add: matchUrl_snd consistent_compilePath consistent_matchQuery
      split: sum.splits option.splits prod.splits)

lemma consistent_run: "consistent env s \<Longrightarrow> consistent env (run env reqs s)"
proof (induction reqs arbitrary: s)
  case Nil
  then show ?case by simp
next
  case (Cons rq reqs)
  then show ?case by (cases rq) (simp add: consistent_matchUrl)
qed

lemma matchUrl_value:
  assumes "consistent env s" and "consistent env s'"
  shows "fst (matchUrl env l ms options s) = fst (matchUrl env l ms options s')"
proof -
  have q: "fst (matchQuery env srch m (snd (compilePath env (path ms) options s))) =
           fst (matchQuery env srch m (snd (compilePath env (path ms) options s')))" for srch m
    using assms by (simp add: matchQuery_fst parseSearch_value consistent_compilePath)
  show ?thesis
    using assms
    by (simp add: matchUrl_fst matchPath_value q
        cong: sum.case_cong option.case_cong prod.case_cong)
qed

lemma env0_sel:
  "parsePath env0 = parsePath0" "pathToRegexp env0 = pathToRegexp0" "qs_parse env0 = qs_parse0"
  "qs_plain env0 = False"
  by (simp_all add: env0_def)

lemmas env0_defs = env0_def opts0_def pathToRegexp0_def qs_parse0_def parsePath0_def init_def
  compilePath_def matchPath_def matchQuery_def parseSearch_def matchUrl_def locationOf_def
  hashFails_def optFlag_def cacheKey_def cacheLimit_def cached_def inherited_def
  protoNames_def getProp_def Let_def

text \<open>
  C1. When the path does not match (\<open>re.exec\<close> gives \<open>null\<close>), \<open>matchUrl\<close> returns \<open>null\<close>
  in the state \<open>matchPath\<close> left: the query cache is as before and \<open>qs.parse\<close> has not
  been called. The same holds whatever the search string, the fragment, the query
  matchers and the hash matcher are, so none of them is looked at.
\<close>

theorem matchUrl_path_failure:
  assumes "matchPath env (pathname (locationOf env l)) (path ms) options s = (Inr (None, ks), s1)"
  shows "matchUrl env l ms options s = (Inr None, s1)
       \<and> matchUrl env (Loc ((locationOf env l)\<lparr>search := sr, hash := h\<rparr>))
            (ms\<lparr>mquery := mq, mhash := mh\<rparr>) options s = (Inr None, s1)
       \<and> queries s1 = queries s \<and> parseCalls s1 = parseCalls s"
proof -
  have "s1 = snd (compilePath env (path ms) options s)"
    using assms matchPath_snd [of env "pathname (locationOf env l)" "path ms" options s] by simp
  then have "queries s1 = queries s \<and> parseCalls s1 = parseCalls s"
    by (simp add: compilePath_frame)
  moreover have "matchUrl env l ms options s = (Inr None, s1)"
    using assms by (simp add: matchUrl_def)
  moreover have "matchUrl env (Loc ((locationOf env l)\<lparr>search := sr, hash := h\<rparr>))
            (ms\<lparr>mquery := mq, mhash := mh\<rparr>) options s = (Inr None, s1)"
    using assms by (simp add: matchUrl_def locationOf_def)
  ultimately show ?thesis by simp
qed

theorem matchUrl_path_failure_witness:
  "matchPath env0 ''/b'' ''/a'' opts0 init = (Inr (None, []), snd (compilePath env0 ''/a'' opts0 init))
   \<and> matchUrl env0 (Loc \<lparr>pathname = ''/b'', search = ''?x=1'', hash = ''h''\<rparr>)
        \<lparr>path = ''/a'', mquery = Some [(''x'', MStr ''1'')], mhash = Some (MStr ''h'')\<rparr> opts0 init
      = (Inr None, snd (compilePath env0 ''/a'' opts0 init))
   \<and> parseCalls (snd (compilePath env0 ''/a'' opts0 init)) = []"
proof -
  have h: "matchPath env0
             (pathname (locationOf env0 (Loc \<lparr>pathname = ''/b'', search = ''?x=1'', hash = ''h''\<rparr>)))
             (path \<lparr>path = ''/a'', mquery = Some [(''x'', MStr ''1'')], mhash = Some (MStr ''h'')\<rparr>)
             opts0 init
           = (Inr (None, []), snd (compilePath env0 ''/a'' opts0 init))"
    by (simp add: env0_defs)
  show ?thesis
    using h matchUrl_path_failure [OF h] by (simp add: locationOf_def init_def)
qed

lemma matchKeys_all:
  "matchKeys env q m \<longleftrightarrow> (\<forall>(k, e) \<in> set m. matchVal (getProp env q k) e)"
  by (induction m) (simp_all split: prod.splits)

lemma matchKeys_iff:
  "matchKeys env q m \<longleftrightarrow> \<not> (\<exists>(k, e) \<in> set m. \<not> matchVal (getProp env q k) e)"
  by (simp add: matchKeys_all split_beta)

text \<open>
  What \<open>matchQuery\<close> does: it returns \<open>null\<close> exactly when a matcher map is given and one
  of its keys fails \<open>matchVal\<close> on what \<open>query[key]\<close> reads, and the query otherwise. For
  the empty search string the state is untouched. In every state the module can reach,
  the query of a search string that is not the name of a member of \<open>Object.prototype\<close>
  is the object \<open>qs.parse\<close> gives for it.
\<close>

lemma matchQuery_reads:
  "fst (matchQuery env srch m s) =
     (if \<exists>mm. m = Some mm
           \<and> (\<exists>(k, e) \<in> set mm. \<not> matchVal (getProp env (parsedQuery env srch s) k) e)
      then None else Some (parsedQuery env srch s))
   \<and> fst (matchQuery env srch None s) = Some (parsedQuery env srch s)
   \<and> parsedQuery env [] s = Obj Map.empty True
   \<and> snd (matchQuery env [] m s) = s
   \<and> parsedQuery env srch (run env reqs init)
       = (if srch = [] then Obj Map.empty True
          else if inherited srch then Member srch
          else Obj (qs_parse env srch) (qs_plain env))"
proof -
  have a: "fst (matchQuery env srch m s) =
     (if \<exists>mm. m = Some mm
           \<and> (\<exists>(k, e) \<in> set mm. \<not> matchVal (getProp env (parsedQuery env srch s) k) e)
      then None else Some (parsedQuery env srch s))"
    by (cases m) (simp_all add: matchQuery_fst parsedQuery_def matchKeys_iff Let_def)
  have b: "fst (matchQuery env srch None s) = Some (parsedQuery env srch s)"
    by (simp add: matchQuery_fst parsedQuery_def)
  have c: "parsedQuery env [] s = Obj Map.empty True"
    by (simp add: parsedQuery_def)
  have d: "snd (matchQuery env [] m s) = s"
    by (simp add: matchQuery_snd)
  have "consistent env (run env reqs init)"
    by (simp add: consistent_run consistent_init)
  then have e: "parsedQuery env srch (run env reqs init)
       = (if srch = [] then Obj Map.empty True
          else if inherited srch then Member srch
          else Obj (qs_parse env srch) (qs_plain env))"
    by (simp add: parsedQuery_def parseSearch_value)
  show ?thesis using a b c d e by blast
qed

text \<open>The keys the claim C2 is right about: one that is an own property of the query, and
  one that is not the name of a member of \<open>Object.prototype\<close>.\<close>

lemma getProp_own:
  "getProp env (Obj ps pl) k =
     (case ps k of Some v \<Rightarrow> Str v
      | None \<Rightarrow> if pl \<and> inherited k then memberVal env k else Undefined)"
  by (simp add: getProp_def)

lemma getProp_absent: "ps k = None \<Longrightarrow> \<not> inherited k \<Longrightarrow> getProp env (Obj ps pl) k = Undefined"
  by (simp add: getProp_def)

lemma inherited_names: "inherited ''constructor''" "inherited ''toString''"
  by (simp_all add: inherited_def protoNames_def)

lemma getProp_constructor:
  "getProp env (Obj Map.empty True) ''constructor''
     = Other ''constructor'' (memberString env ''constructor'')"
  by (simp add: getProp_def inherited_names memberVal_def)

lemma matchQuery_constructor:
  "matchQuery env [] (Some [(''constructor'', MBool True)]) s = (Some (Obj Map.empty True), s)"
  by (simp add: matchQuery_def getProp_constructor)

text \<open>
  C2, at the inputs where the code leaves it. With the empty search string and the
  matcher map \<open>{constructor: true}\<close> the query \<open>{}\<close> has no property \<open>constructor\<close> of its
  own, and the boolean matcher fails on \<open>undefined\<close>, so the claim gives \<open>null\<close>. The code
  reads the member \<open>constructor\<close> that \<open>{}\<close> inherits, the matcher passes, and
  \<open>matchQuery\<close> returns the query; \<open>matchUrl\<close> returns a match. With the search string
  \<open>toString\<close>, \<open>parseSearch\<close> returns the inherited member as the query and neither
  calls \<open>qs.parse\<close> nor stores anything.
\<close>

theorem matchQuery_inherited_key:
  "props (Obj Map.empty True) ''constructor'' = None
   \<and> \<not> matchVal Undefined (MBool True)
   \<and> getProp env (Obj Map.empty True) ''constructor''
       = Other ''constructor'' (memberString env ''constructor'')
   \<and> matchQuery env [] (Some [(''constructor'', MBool True)]) s = (Some (Obj Map.empty True), s)
   \<and> fst (matchUrl env0 (Loc \<lparr>pathname = ''/a'', search = [], hash = []\<rparr>)
            \<lparr>path = ''/a'', mquery = Some [(''constructor'', MBool True)], mhash = None\<rparr>
            opts0 init)
       = Inr (Some \<lparr>params = None, query = Obj Map.empty True, rhash = [], matchedPath = ''/a'',
                    rmatchers = \<lparr>path = ''/a'', mquery = Some [(''constructor'', MBool True)],
                                 mhash = None\<rparr>,
                    rpartial = False\<rparr>)
   \<and> parseSearch env ''toString'' init = (Member ''toString'', init)"
proof -
  have a: "getProp env (Obj Map.empty True) ''constructor''
       = Other ''constructor'' (memberString env ''constructor'')"
    by (rule getProp_constructor)
  have b: "matchQuery env [] (Some [(''constructor'', MBool True)]) s = (Some (Obj Map.empty True), s)"
    by (rule matchQuery_constructor)
  have c: "fst (matchUrl env0 (Loc \<lparr>pathname = ''/a'', search = [], hash = []\<rparr>)
            \<lparr>path = ''/a'', mquery = Some [(''constructor'', MBool True)], mhash = None\<rparr>
            opts0 init)
       = Inr (Some \<lparr>params = None, query = Obj Map.empty True, rhash = [], matchedPath = ''/a'',
                    rmatchers = \<lparr>path = ''/a'', mquery = Some [(''constructor'', MBool True)],
                                 mhash = None\<rparr>,
                    rpartial = False\<rparr>)"
    by (simp add: matchUrl_def locationOf_def matchPath_def compilePath_def
        matchQuery_constructor env0_sel pathToRegexp0_def inherited_def protoNames_def init_def opts0_def hashFails_def
        optFlag_def cacheKey_def cacheLimit_def Let_def)
  have d: "parseSearch env ''toString'' init = (Member ''toString'', init)"
    by (simp add: parseSearch_def inherited_names init_def)
  show ?thesis using a b c d by simp
qed

lemma matchPath_fst:
  "fst (matchPath env x pattern options s) =
     (case fst (compilePath env pattern options s) of
        Inl e \<Rightarrow> Inl e
      | Inr (Compiled c) \<Rightarrow> Inr (re c x, keys c)
      | Inr (Inherited n) \<Rightarrow> Inl TypeError)"
  by (simp add: matchPath_def split: prod.splits sum.splits found.splits)

text \<open>
  C3, as amended. When \<open>matchers.hash\<close> is supplied and truthy, and \<open>matchVal\<close> fails
  on the fragment of the location, \<open>matchUrl\<close> returns \<open>null\<close> (unless matching the
  path has thrown before: \<open>pathToRegexp\<close> on a malformed pattern, or \<open>re.exec\<close> when
  \<open>compilePath\<close> returned a member of \<open>Object.prototype\<close>).
\<close>

theorem matchUrl_hash_check:
  assumes "mhash ms = Some e" and "truthy e"
    and "\<not> matchVal (Str (hash (locationOf env l))) e"
  shows "fst (matchUrl env l ms options s) =
           (case fst (compilePath env (path ms) options s) of
              Inl err \<Rightarrow> Inl err
            | Inr (Compiled c) \<Rightarrow> Inr None
            | Inr (Inherited n) \<Rightarrow> Inl TypeError)"
proof -
  have "hashFails (hash (locationOf env l)) (mhash ms)"
    using assms by (simp add: hashFails_def)
  then show ?thesis
    by (simp add: matchUrl_fst matchPath_fst
        split: sum.splits option.splits prod.splits found.splits)
qed

theorem matchUrl_hash_check_witness:
  "mhash \<lparr>path = ''/a'', mquery = None, mhash = Some (MStr ''sec'')\<rparr> = Some (MStr ''sec'')
   \<and> truthy (MStr ''sec'')
   \<and> \<not> matchVal (Str (hash (locationOf env0 (Raw ''/a#other'')))) (MStr ''sec'')
   \<and> fst (matchUrl env0 (Raw ''/a#other'')
            \<lparr>path = ''/a'', mquery = None, mhash = Some (MStr ''sec'')\<rparr> opts0 init) = Inr None"
proof -
  have h: "hash (locationOf env0 (Raw ''/a#other'')) = ''other''"
    by (simp add: env0_def locationOf_def parsePath0_def)
  have c: "fst (compilePath env0 ''/a'' opts0 init)
             = Inr (Compiled \<lparr>oid = 0, re = (\<lambda>p. if p = ''/a'' then Some (p, []) else None),
                              keys = []\<rparr>)"
    by (simp add: env0_defs)
  show ?thesis
    using matchUrl_hash_check
      [of "\<lparr>path = ''/a'', mquery = None, mhash = Some (MStr ''sec'')\<rparr>" "MStr ''sec''"
          env0 "Raw ''/a#other''" opts0 init]
    by (simp add: h c)
qed

text \<open>
  The claim C3 as first stated also covers a supplied matcher that is falsy. The guard
  \<open>matchers.hash && ...\<close> skips \<open>matchVal\<close> for these: with the empty string as
  matcher and the fragment \<open>other\<close>, and with \<open>false\<close> as matcher and an empty
  fragment, \<open>matchVal\<close> fails and \<open>matchUrl\<close> still returns a match.
\<close>

theorem matchUrl_falsy_hash_counterexample:
  "\<not> matchVal (Str ''other'') (MStr [])
   \<and> fst (matchUrl env0 (Loc \<lparr>pathname = ''/a'', search = [], hash = ''other''\<rparr>)
            \<lparr>path = ''/a'', mquery = None, mhash = Some (MStr [])\<rparr> opts0 init)
       = Inr (Some \<lparr>params = None, query = Obj Map.empty True, rhash = ''other'', matchedPath = ''/a'',
                    rmatchers = \<lparr>path = ''/a'', mquery = None, mhash = Some (MStr [])\<rparr>,
                    rpartial = False\<rparr>)
   \<and> \<not> matchVal (Str []) (MBool False)
   \<and> fst (matchUrl env0 (Loc \<lparr>pathname = ''/a'', search = [], hash = []\<rparr>)
            \<lparr>path = ''/a'', mquery = None, mhash = Some (MBool False)\<rparr> opts0 init)
       = Inr (Some \<lparr>params = None, query = Obj Map.empty True, rhash = [], matchedPath = ''/a'',
                    rmatchers = \<lparr>path = ''/a'', mquery = None, mhash = Some (MBool False)\<rparr>,
                    rpartial = False\<rparr>)"
  by (simp add: env0_defs)

text \<open>
  What holds of two calls in a row: when \<open>compilePath\<close> is called with the counter below
  the limit and returns a \<open>{ re, keys }\<close> object, a second call with the same pattern and
  options returns the same object (the same identity, regular expression and keys) and
  leaves the state as it is. The object is the entry for the pattern in the bucket
  whose key is made of the two flags, and different flags give different keys.
\<close>

lemma compilePath_stored_reuse:
  assumes "cacheCount s < cacheLimit" and "compilePath env p options s = (Inr (Compiled c), s1)"
  shows "compilePath env p options s1 = (Inr (Compiled c), s1)
       \<and> (\<exists>b. patternCache s1 (cacheKey (optFlag (partial options)) (optFlag (strict options))) = Some b
              \<and> b p = Some c)
       \<and> (cacheKey (optFlag (partial options)) (optFlag (strict options)) = cacheKey pa st
            \<longleftrightarrow> optFlag (partial options) = pa \<and> optFlag (strict options) = st)"
proof -
  have "cached s1 (optFlag (partial options)) (optFlag (strict options)) p = Some c"
  proof (cases rule: compilePath_cases [of env p options s])
    case (hit c')
    then show ?thesis using assms by simp
  next
    case proto
    then show ?thesis using assms compilePath_inherited(1) [of s options p env] by simp
  next
    case throw
    then show ?thesis using assms compilePath_throw(1) [of s options p env] by simp
  next
    case (insert r ks)
    then show ?thesis
      using assms compilePath_insert(1,2) [of s options p env r ks] by simp
  next
    case (full r ks)
    then show ?thesis using assms by simp
  qed
  then show ?thesis
    using compilePath_hit [of s1 options p c env]
    by (auto simp: cached_def cacheKey_inj split: option.splits)
qed

lemma compilePath_stored_reuse_example:
  "cacheCount init < cacheLimit
   \<and> compilePath env0 ''/a'' opts0 init
       = (Inr (Compiled \<lparr>oid = 0, re = (\<lambda>p. if p = ''/a'' then Some (p, []) else None), keys = []\<rparr>),
          snd (compilePath env0 ''/a'' opts0 init))
   \<and> compilePath env0 ''/a'' opts0 (snd (compilePath env0 ''/a'' opts0 init))
       = (Inr (Compiled \<lparr>oid = 0, re = (\<lambda>p. if p = ''/a'' then Some (p, []) else None), keys = []\<rparr>),
          snd (compilePath env0 ''/a'' opts0 init))"
proof -
  have a: "cacheCount init < cacheLimit"
    by (simp add: init_def cacheLimit_def)
  have b: "compilePath env0 ''/a'' opts0 init
       = (Inr (Compiled \<lparr>oid = 0, re = (\<lambda>p. if p = ''/a'' then Some (p, []) else None), keys = []\<rparr>),
          snd (compilePath env0 ''/a'' opts0 init))"
    by (simp add: env0_defs)
  show ?thesis
    using a b compilePath_stored_reuse [OF a b] by simp
qed

text \<open>
  C6, at an input where the code leaves it. The pattern \<open>toString\<close> has never been
  compiled and the counter is 0. Both of two calls in a row return the member
  \<open>toString\<close> of \<open>Object.prototype\<close>, which is no \<open>{ re, keys }\<close> object; nothing is
  compiled, the bucket \<open>ff\<close> stays empty, so what is returned is not an entry of the
  cache, and no object is allocated.
\<close>

theorem compilePath_inherited_reuse:
  "cacheCount init < cacheLimit
   \<and> cached init False False ''toString'' = None
   \<and> fst (compilePath env ''toString'' opts0 init) = Inr (Inherited ''toString'')
   \<and> fst (compilePath env ''toString'' opts0 (snd (compilePath env ''toString'' opts0 init)))
       = Inr (Inherited ''toString'')
   \<and> patternCache (snd (compilePath env ''toString'' opts0 init)) = [''ff'' \<mapsto> Map.empty]
   \<and> cached (snd (compilePath env ''toString'' opts0 init)) False False ''toString'' = None
   \<and> nextOid (snd (compilePath env ''toString'' opts0 init)) = 0"
  by (simp add: compilePath_def cached_def inherited_names init_def opts0_def optFlag_def
      cacheKey_def cacheLimit_def Let_def)

text \<open>
  C7. When \<open>matchUrl\<close> returns a match for the pattern \<open>/\<close>, \<open>matchedPath\<close> is \<open>/\<close> if
  the matched substring is empty and the matched substring otherwise; so it is never the
  empty string.
\<close>

theorem matchedPath_root:
  assumes "fst (matchUrl env l ms options s) = Inr (Some r)" and "path ms = ''/''"
    and "fst (matchPath env (pathname (locationOf env l)) (path ms) options s)
           = Inr (Some (m0, vals), ks)"
  shows "matchedPath r = (if m0 = [] then ''/'' else m0) \<and> matchedPath r \<noteq> []"
proof -
  have "matchedPath r = (if m0 = [] then ''/'' else m0)"
    using assms by (auto simp: matchUrl_fst split: option.splits if_splits)
  then show ?thesis by simp
qed

theorem matchedPath_root_witness:
  "fst (matchUrl env0 (Loc \<lparr>pathname = [], search = [], hash = []\<rparr>)
          \<lparr>path = ''/'', mquery = None, mhash = None\<rparr> opts0 init)
     = Inr (Some \<lparr>params = None, query = Obj Map.empty True, rhash = [], matchedPath = ''/'',
                  rmatchers = \<lparr>path = ''/'', mquery = None, mhash = None\<rparr>, rpartial = False\<rparr>)
   \<and> fst (matchPath env0 [] ''/'' opts0 init) = Inr (Some ([], []), [])
   \<and> matchedPath \<lparr>params = None :: (string \<rightharpoonup> string) option, query = Obj Map.empty True, rhash = [],
          matchedPath = ''/'', rmatchers = \<lparr>path = ''/'', mquery = None, mhash = None\<rparr>,
          rpartial = False\<rparr> \<noteq> []"
proof -
  have a: "fst (matchUrl env0 (Loc \<lparr>pathname = [], search = [], hash = []\<rparr>)
          \<lparr>path = ''/'', mquery = None, mhash = None\<rparr> opts0 init)
     = Inr (Some \<lparr>params = None, query = Obj Map.empty True, rhash = [], matchedPath = ''/'',
                  rmatchers = \<lparr>path = ''/'', mquery = None, mhash = None\<rparr>, rpartial = False\<rparr>)"
    by (simp add: env0_defs)
  have b: "path \<lparr>path = ''/'', mquery = None, mhash = None\<rparr> = ''/''"
    by simp
  have c: "fst (matchPath env0
              (pathname (locationOf env0 (Loc \<lparr>pathname = [], search = [], hash = []\<rparr>)))
              (path \<lparr>path = ''/'', mquery = None, mhash = None\<rparr>) opts0 init)
           = Inr (Some ([], []), [])"
    by (simp add: env0_defs)
  show ?thesis
    using a c matchedPath_root [OF a b c] by (simp add: locationOf_def)
qed






text \<open>
  C9. Whatever calls of \<open>matchUrl\<close> were made before, also when they took the counter to
  its limit, a call with given arguments returns the same value: the states reached
  after two arbitrary sequences of calls give equal results.
\<close>

theorem matchUrl_deterministic:
  "fst (matchUrl env l ms options (run env reqs init))
     = fst (matchUrl env l ms options (run env reqs' init))"
  by (rule matchUrl_value) (simp_all add: consistent_run consistent_init)

theorem matchUrl_deterministic_witness:
  "fst (matchUrl env0 (Raw ''/a?x=1'') \<lparr>path = ''/a'', mquery = Some [(''x'', MStr ''1'')], mhash = None\<rparr>
          opts0
          (run env0
             [Request (Raw ''/a?x=1'') \<lparr>path = ''/a'', mquery = Some [(''x'', MStr ''1'')], mhash = None\<rparr> opts0,
              Request (Raw ''/b'') \<lparr>path = ''/'', mquery = None, mhash = None\<rparr> opts0]
             init))
     = Inr (Some \<lparr>params = None, query = Obj [''x'' \<mapsto> ''1''] False, rhash = [], matchedPath = ''/a'',
                  rmatchers = \<lparr>path = ''/a'', mquery = Some [(''x'', MStr ''1'')], mhash = None\<rparr>,
                  rpartial = False\<rparr>)"
proof -
  have l: "locationOf env0 (Raw ''/a?x=1'') = \<lparr>pathname = ''/a'', search = ''?x=1'', hash = []\<rparr>"
    by (simp add: env0_sel locationOf_def parsePath0_def)
  have "fst (matchUrl env0 (Raw ''/a?x=1'')
               \<lparr>path = ''/a'', mquery = Some [(''x'', MStr ''1'')], mhash = None\<rparr> opts0 (run env0 [] init))
     = Inr (Some \<lparr>params = None, query = Obj [''x'' \<mapsto> ''1''] False, rhash = [], matchedPath = ''/a'',
                  rmatchers = \<lparr>path = ''/a'', mquery = Some [(''x'', MStr ''1'')], mhash = None\<rparr>,
                  rpartial = False\<rparr>)"
    by (simp add: matchUrl_def l matchPath_def compilePath_def matchQuery_def parseSearch_def
        env0_sel opts0_def pathToRegexp0_def qs_parse0_def init_def hashFails_def optFlag_def
        cacheKey_def cacheLimit_def inherited_def protoNames_def getProp_def Let_def)
  then show ?thesis
    using matchUrl_deterministic [of env0 "Raw ''/a?x=1''"
        "\<lparr>path = ''/a'', mquery = Some [(''x'', MStr ''1'')], mhash = None\<rparr>" opts0
        "[Request (Raw ''/a?x=1'') \<lparr>path = ''/a'', mquery = Some [(''x'', MStr ''1'')], mhash = None\<rparr> opts0,
          Request (Raw ''/b'') \<lparr>path = ''/'', mquery = None, mhash = None\<rparr> opts0]" "[]"]
    by simp
qed

text \<open>
  C10, as amended. When the path does not match, \<open>matchUrl\<close> returns \<open>null\<close> and leaves
  the state exactly as \<open>compilePath\<close> does for the pattern: the query cache and the
  calls of \<open>qs.parse\<close> are as before; and when the pattern was not cached under its
  flags, compiles, and the counter is below the limit, the new object is stored under
  the pattern and the counter and the allocation count go up by one.
\<close>

theorem matchUrl_path_failure_effects:
  fixes env :: env and l :: loc and ms :: matchers and options :: "'a options" and s :: state
  defines "pa \<equiv> optFlag (partial options)" and "st \<equiv> optFlag (strict options)"
  defines "s' \<equiv> snd (matchUrl env l ms options s)"
  assumes "fst (matchPath env (pathname (locationOf env l)) (path ms) options s) = Inr (None, ks)"
  shows "fst (matchUrl env l ms options s) = Inr None
       \<and> s' = snd (compilePath env (path ms) options s)
       \<and> queries s' = queries s \<and> parseCalls s' = parseCalls s
       \<and> (cached s pa st (path ms) = None \<and> cacheCount s < cacheLimit \<longrightarrow>
            (\<exists>c. cached s' pa st (path ms) = Some c \<and> oid c = nextOid s)
            \<and> cacheCount s' = Suc (cacheCount s) \<and> nextOid s' = Suc (nextOid s))
       \<and> (cached s pa st (path ms) \<noteq> None \<longrightarrow> s' = s)"
proof -
  have r: "fst (matchUrl env l ms options s) = Inr None"
    using assms(4) by (simp add: matchUrl_fst)
  have s': "s' = snd (compilePath env (path ms) options s)"
    using assms(4) by (simp add: s'_def matchUrl_snd)
  have f: "queries s' = queries s \<and> parseCalls s' = parseCalls s"
    by (simp add: s' compilePath_frame)
  have m: "(\<exists>c. cached s' pa st (path ms) = Some c \<and> oid c = nextOid s)
            \<and> cacheCount s' = Suc (cacheCount s) \<and> nextOid s' = Suc (nextOid s)"
    if miss: "cached s pa st (path ms) = None" and below: "cacheCount s < cacheLimit"
  proof -
    have own: "\<not> inherited (path ms)"
    proof
      assume "inherited (path ms)"
      then have "fst (compilePath env (path ms) options s) = Inr (Inherited (path ms))"
        using miss compilePath_inherited(1) [of s options "path ms" env]
        by (simp add: pa_def st_def)
      then show False using assms(4) by (simp add: matchPath_fst)
    qed
    obtain rx kx where c: "pathToRegexp env (path ms) (\<not> pa) st = Some (rx, kx)"
    proof (cases "pathToRegexp env (path ms) (\<not> pa) st")
      case None
      then have "fst (compilePath env (path ms) options s) = Inl PatternError"
        using miss own compilePath_throw(1) [of s options "path ms" env]
        by (simp add: pa_def st_def)
      then show ?thesis using assms(4) by (simp add: matchPath_fst)
    next
      case (Some a)
      then show ?thesis using that by (cases a) simp
    qed
    show ?thesis
      using miss own below c compilePath_insert(2,3,4) [of s options "path ms" env rx kx]
      by (simp add: s' pa_def st_def)
  qed
  have h: "s' = s" if "cached s pa st (path ms) \<noteq> None"
    using that compilePath_hit [of s options "path ms" _ env] by (auto simp: s' pa_def st_def)
  show ?thesis using r s' f m h by blast
qed

theorem matchUrl_path_failure_effects_witness:
  "fst (matchPath env0 ''/b'' ''/a'' opts0 init) = Inr (None, [])
   \<and> cached init False False ''/a'' = None \<and> cacheCount init < cacheLimit
   \<and> fst (matchUrl env0 (Loc \<lparr>pathname = ''/b'', search = ''?x=1'', hash = []\<rparr>)
            \<lparr>path = ''/a'', mquery = None, mhash = None\<rparr> opts0 init) = Inr None
   \<and> cacheCount (snd (matchUrl env0 (Loc \<lparr>pathname = ''/b'', search = ''?x=1'', hash = []\<rparr>)
            \<lparr>path = ''/a'', mquery = None, mhash = None\<rparr> opts0 init)) = 1
   \<and> queries (snd (matchUrl env0 (Loc \<lparr>pathname = ''/b'', search = ''?x=1'', hash = []\<rparr>)
            \<lparr>path = ''/a'', mquery = None, mhash = None\<rparr> opts0 init)) = Map.empty"
proof -
  let ?l = "Loc \<lparr>pathname = ''/b'', search = ''?x=1'', hash = []\<rparr>"
  let ?ms = "\<lparr>path = ''/a'', mquery = None, mhash = None\<rparr>"
  have a: "fst (matchPath env0 (pathname (locationOf env0 ?l)) (path ?ms) opts0 init) = Inr (None, [])"
    by (simp add: env0_defs)
  have b: "cached init False False ''/a'' = None" "cacheCount init < cacheLimit"
    by (simp_all add: cached_def init_def cacheLimit_def)
  have o: "optFlag (partial opts0) = False" "optFlag (strict opts0) = False"
    by (simp_all add: opts0_def optFlag_def)
  have i: "cacheCount init = 0" "queries init = Map.empty"
    by (simp_all add: init_def)
  have "fst (matchUrl env0 ?l ?ms opts0 init) = Inr None
        \<and> cacheCount (snd (matchUrl env0 ?l ?ms opts0 init)) = Suc (cacheCount init)
        \<and> queries (snd (matchUrl env0 ?l ?ms opts0 init)) = queries init"
    using b matchUrl_path_failure_effects [OF a] unfolding o by (simp (no_asm_use), blast)
  then show ?thesis
    using a b by (simp add: i locationOf_def)
qed

text \<open>
  The claim C10 as first stated says that every such call changes the pattern cache
  and the counter. A second call with the same arguments finds the pattern cached and
  changes nothing, with the counter at 1.
\<close>

theorem matchUrl_path_failure_hit_counterexample:
  "fst (matchUrl env0 (Loc \<lparr>pathname = ''/b'', search = [], hash = []\<rparr>)
          \<lparr>path = ''/a'', mquery = None, mhash = None\<rparr> opts0
          (snd (matchUrl env0 (Loc \<lparr>pathname = ''/b'', search = [], hash = []\<rparr>)
                  \<lparr>path = ''/a'', mquery = None, mhash = None\<rparr> opts0 init))) = Inr None
   \<and> cacheCount (snd (matchUrl env0 (Loc \<lparr>pathname = ''/b'', search = [], hash = []\<rparr>)
                  \<lparr>path = ''/a'', mquery = None, mhash = None\<rparr> opts0 init)) = 1
   \<and> (1 :: nat) < cacheLimit
   \<and> snd (matchUrl env0 (Loc \<lparr>pathname = ''/b'', search = [], hash = []\<rparr>)
          \<lparr>path = ''/a'', mquery = None, mhash = None\<rparr> opts0
          (snd (matchUrl env0 (Loc \<lparr>pathname = ''/b'', search = [], hash = []\<rparr>)
                  \<lparr>path = ''/a'', mquery = None, mhash = None\<rparr> opts0 init)))
       = snd (matchUrl env0 (Loc \<lparr>pathname = ''/b'', search = [], hash = []\<rparr>)
                  \<lparr>path = ''/a'', mquery = None, mhash = None\<rparr> opts0 init)"
  by (simp add: env0_defs)

lemma cached_compilePath_keeps:
  assumes "cached s pa st p = Some c"
  shows "cached (snd (compilePath env pattern options s)) pa st p = Some c"
proof (cases rule: compilePath_cases [of env pattern options s])
  case (hit c')
  then show ?thesis using assms by simp
next
  case proto
  then show ?thesis using assms by (simp add: compilePath_inherited)
next
  case throw
  then show ?thesis using assms by (simp add: compilePath_throw)
next
  case (insert r ks)
  then show ?thesis using assms by (auto simp: compilePath_insert)
next
  case (full r ks)
  then show ?thesis using assms by (simp add: compilePath_full)
qed

lemma cached_matchUrl:
  "cached (snd (matchUrl env l ms options s)) pa st p
     = cached (snd (compilePath env (path ms) options s)) pa st p"
  by (rule cached_cong) (simp add: matchUrl_frame)

lemma cached_run_keeps:
  "cached s pa st p = Some c \<Longrightarrow> cached (run env reqs s) pa st p = Some c"
proof (induction reqs arbitrary: s)
  case Nil
  then show ?case by simp
next
  case (Cons rq reqs)
  obtain l ms options where rq: "rq = Request l ms options" by (cases rq)
  have "cached (snd (matchUrl env l ms options s)) pa st p = Some c"
    using Cons.prems by (simp add: cached_matchUrl cached_compilePath_keeps)
  then show ?case using Cons.IH rq by simp
qed

text \<open>
  What holds of the counter and of a pattern that is not the name of a member of
  \<open>Object.prototype\<close>. Starting from the initial state the counter never exceeds 10000.
  A call that finds nothing stored and compiles, made with the counter below the limit,
  stores the new object and adds one to the counter. Made with the counter at the limit,
  it returns a new object with the regular expression and keys \<open>pathToRegexp\<close> gave,
  stores nothing and leaves the counter; the same call made again finds nothing again
  and returns another new object. From a state with the counter at the limit, no
  sequence of calls changes the counter or any entry of the cache, and no sequence of
  calls removes an entry.
\<close>

lemma compilePath_latch:
  fixes env :: env and p :: string and options :: "'a options" and s :: state
    and reqs reqs' :: "'a request list"
  defines "pa \<equiv> optFlag (partial options)" and "st \<equiv> optFlag (strict options)"
  defines "s1 \<equiv> snd (compilePath env p options s)"
  defines "s2 \<equiv> snd (compilePath env p options s1)"
  shows "cacheCount (run env reqs init) \<le> cacheLimit
     \<and> (cached s pa st p = None \<and> \<not> inherited p
          \<and> pathToRegexp env p (\<not> pa) st = Some (r, ks)
          \<and> cacheCount s < cacheLimit \<longrightarrow>
          fst (compilePath env p options s) = Inr (Compiled \<lparr>oid = nextOid s, re = r, keys = ks\<rparr>)
          \<and> cached s1 pa st p = Some \<lparr>oid = nextOid s, re = r, keys = ks\<rparr>
          \<and> cacheCount s1 = Suc (cacheCount s))
     \<and> (cached s pa st p = None \<and> \<not> inherited p
          \<and> pathToRegexp env p (\<not> pa) st = Some (r, ks)
          \<and> cacheCount s = cacheLimit \<longrightarrow>
          fst (compilePath env p options s) = Inr (Compiled \<lparr>oid = nextOid s, re = r, keys = ks\<rparr>)
          \<and> (\<forall>pa' st' p'. cached s1 pa' st' p' = cached s pa' st' p')
          \<and> cacheCount s1 = cacheLimit
          \<and> fst (compilePath env p options s1)
              = Inr (Compiled \<lparr>oid = Suc (nextOid s), re = r, keys = ks\<rparr>)
          \<and> (\<forall>pa' st' p'. cached s2 pa' st' p' = cached s pa' st' p')
          \<and> cacheCount s2 = cacheLimit)
     \<and> (cacheCount s = cacheLimit \<longrightarrow>
          cacheCount (run env reqs' s) = cacheLimit
          \<and> (\<forall>pa' st' p'. cached (run env reqs' s) pa' st' p' = cached s pa' st' p'))
     \<and> (cached s pa' st' p' = Some c \<longrightarrow> cached (run env reqs' s) pa' st' p' = Some c)"
proof -
  have a: "cacheCount (run env reqs init) \<le> cacheLimit"
    by (rule cacheCount_run_le) (simp add: init_def)
  have b: "fst (compilePath env p options s) = Inr (Compiled \<lparr>oid = nextOid s, re = r, keys = ks\<rparr>)
          \<and> cached s1 pa st p = Some \<lparr>oid = nextOid s, re = r, keys = ks\<rparr>
          \<and> cacheCount s1 = Suc (cacheCount s)"
    if "cached s pa st p = None" "\<not> inherited p" "pathToRegexp env p (\<not> pa) st = Some (r, ks)"
      "cacheCount s < cacheLimit"
    using that compilePath_insert [of s options p env r ks]
    by (simp add: s1_def pa_def st_def)
  have c: "fst (compilePath env p options s) = Inr (Compiled \<lparr>oid = nextOid s, re = r, keys = ks\<rparr>)
          \<and> (\<forall>pa' st' p'. cached s1 pa' st' p' = cached s pa' st' p')
          \<and> cacheCount s1 = cacheLimit
          \<and> fst (compilePath env p options s1)
              = Inr (Compiled \<lparr>oid = Suc (nextOid s), re = r, keys = ks\<rparr>)
          \<and> (\<forall>pa' st' p'. cached s2 pa' st' p' = cached s pa' st' p')
          \<and> cacheCount s2 = cacheLimit"
    if miss: "cached s pa st p = None" and own: "\<not> inherited p"
      and ok: "pathToRegexp env p (\<not> pa) st = Some (r, ks)"
      and full: "cacheCount s = cacheLimit"
  proof -
    have 1: "fst (compilePath env p options s) = Inr (Compiled \<lparr>oid = nextOid s, re = r, keys = ks\<rparr>)"
      "\<And>pa' st' p'. cached s1 pa' st' p' = cached s pa' st' p'"
      "cacheCount s1 = cacheCount s" "nextOid s1 = Suc (nextOid s)"
      using miss own ok full compilePath_full [of s options p env r ks]
      by (simp_all add: s1_def pa_def st_def)
    have miss1: "cached s1 (optFlag (partial options)) (optFlag (strict options)) p = None"
      using miss 1(2) by (simp add: pa_def st_def)
    have 2: "fst (compilePath env p options s1) = Inr (Compiled \<lparr>oid = nextOid s1, re = r, keys = ks\<rparr>)"
      "\<And>pa' st' p'. cached s2 pa' st' p' = cached s1 pa' st' p'"
      "cacheCount s2 = cacheCount s1"
      using miss1 own ok full 1(3) compilePath_full [of s1 options p env r ks]
      by (simp_all add: s2_def pa_def st_def)
    show ?thesis using 1 2 full by simp
  qed
  have d: "cacheCount (run env reqs' s) = cacheLimit
          \<and> (\<forall>pa' st' p'. cached (run env reqs' s) pa' st' p' = cached s pa' st' p')"
    if "cacheCount s = cacheLimit"
    using that run_latched [of s env reqs'] by simp
  have e: "cached (run env reqs' s) pa' st' p' = Some c" if "cached s pa' st' p' = Some c"
    using that by (rule cached_run_keeps)
  show ?thesis using a b c d e by blast
qed

lemma run_append: "run env (xs @ ys) s = run env ys (run env xs s)"
proof (induction xs arbitrary: s)
  case Nil
  then show ?case by simp
next
  case (Cons rq xs)
  then show ?case by (cases rq) simp
qed

lemma fillRequests_Suc:
  "fillRequests (Suc n) =
     fillRequests n @
       [Request (Loc \<lparr>pathname = [], search = [], hash = []\<rparr>)
          \<lparr>path = replicate n CHR ''a'', mquery = None, mhash = None\<rparr> opts0]"
  by (simp add: fillRequests_def)

lemma pathToRegexp0_literal:
  "p \<noteq> ''('' \<Longrightarrow> \<exists>r ks. pathToRegexp0 p e st = Some (r, ks)"
  by (simp add: pathToRegexp0_def)

lemma opts0_flags: "optFlag (partial opts0) = False" "optFlag (strict opts0) = False"
  by (simp_all add: opts0_def optFlag_def)

lemma inherited_letters: "inherited p \<Longrightarrow> CHR ''o'' \<in> set p \<or> CHR ''e'' \<in> set p"
  by (auto simp: inherited_def protoNames_def)

lemma replicate_a_own: "\<not> inherited (replicate n CHR ''a'')"
  using inherited_letters [of "replicate n CHR ''a''"] by auto

lemma new_a_own: "\<not> inherited ''/new''" "\<not> inherited ''/a''"
  by (simp_all add: inherited_def protoNames_def)

lemma fill_state:
  "n \<le> cacheLimit \<Longrightarrow>
     cacheCount (run env0 (fillRequests n) init) = n
     \<and> (\<forall>pa st p. cached (run env0 (fillRequests n) init) pa st p \<noteq> None
           \<longrightarrow> \<not> pa \<and> \<not> st \<and> (\<exists>i < n. p = replicate i CHR ''a''))"
proof (induction n)
  case 0
  then show ?case by (simp add: fillRequests_def init_def cached_def)
next
  case (Suc n)
  let ?s = "run env0 (fillRequests n) init"
  let ?p = "replicate n CHR ''a''"
  let ?l = "Loc \<lparr>pathname = [], search = [], hash = []\<rparr>"
  let ?ms = "\<lparr>path = ?p, mquery = None, mhash = None\<rparr>"
  let ?s' = "snd (matchUrl env0 ?l ?ms opts0 ?s)"
  have "n \<le> cacheLimit" using Suc.prems by simp
  note IH = Suc.IH [OF this]
  have ih: "cacheCount ?s = n"
    "\<And>pa st p. cached ?s pa st p \<noteq> None \<Longrightarrow> \<not> pa \<and> \<not> st \<and> (\<exists>i < n. p = replicate i CHR ''a'')"
    using IH by blast+
  have step: "run env0 (fillRequests (Suc n)) init = ?s'"
    by (simp add: fillRequests_Suc run_append)
  have miss: "cached ?s False False ?p = None"
  proof (rule ccontr)
    assume "cached ?s False False ?p \<noteq> None"
    then obtain i where "i < n" "?p = replicate i CHR ''a''" using ih(2) by blast
    then have "length ?p = length (replicate i CHR ''a'')" by simp
    then show False using \<open>i < n\<close> by simp
  qed
  have "?p \<noteq> ''(''"
    by (cases n) simp_all
  then obtain r ks where ok: "pathToRegexp env0 ?p True False = Some (r, ks)"
    using pathToRegexp0_literal [of ?p True False] by (auto simp: env0_sel)
  have below: "cacheCount ?s < cacheLimit"
    using ih(1) Suc.prems by simp
  have own: "\<not> inherited ?p"
    by (rule replicate_a_own)
  have cnt: "cacheCount ?s' = Suc n"
    using miss own ok below compilePath_insert(3) [of ?s opts0 ?p env0 r ks]
    by (simp add: matchUrl_frame opts0_flags ih(1))
  have ent: "\<not> pa \<and> \<not> st \<and> (\<exists>i < Suc n. p = replicate i CHR ''a'')"
    if "cached ?s' pa st p \<noteq> None" for pa st p
  proof (cases "pa = False \<and> st = False \<and> p = ?p")
    case True
    then show ?thesis by auto
  next
    case False
    have "cached ?s' pa st p = cached ?s pa st p"
      using False miss own ok below compilePath_insert(2) [of ?s opts0 ?p env0 r ks pa st p]
      by (auto simp: cached_matchUrl opts0_flags)
    then show ?thesis using that ih(2) [of pa st p] by (auto intro: less_SucI)
  qed
  show ?case using cnt ent unfolding step by blast
qed

text \<open>The counter taken to the limit by 10000 calls with different patterns, and a call
  with one more pattern after that.\<close>

lemma compilePath_latch_example:
  "cacheCount (run env0 (fillRequests cacheLimit) init) = cacheLimit
   \<and> cached (run env0 (fillRequests cacheLimit) init) False False ''/new'' = None
   \<and> fst (compilePath env0 ''/new'' opts0 (run env0 (fillRequests cacheLimit) init))
       = Inr (Compiled \<lparr>oid = nextOid (run env0 (fillRequests cacheLimit) init),
              re = (\<lambda>p. if p = ''/new'' then Some (p, []) else None), keys = []\<rparr>)
   \<and> fst (compilePath env0 ''/new'' opts0
            (snd (compilePath env0 ''/new'' opts0 (run env0 (fillRequests cacheLimit) init))))
       = Inr (Compiled \<lparr>oid = Suc (nextOid (run env0 (fillRequests cacheLimit) init)),
              re = (\<lambda>p. if p = ''/new'' then Some (p, []) else None), keys = []\<rparr>)
   \<and> cached (snd (compilePath env0 ''/new'' opts0 (run env0 (fillRequests cacheLimit) init)))
        False False ''/new'' = None
   \<and> cacheCount (snd (compilePath env0 ''/new'' opts0 (run env0 (fillRequests cacheLimit) init)))
       = cacheLimit
   \<and> cacheCount (run env0 (fillRequests (Suc cacheLimit)) init) = cacheLimit
   \<and> cached init False False ''/a'' = None \<and> cacheCount init < cacheLimit
   \<and> cacheCount (snd (compilePath env0 ''/a'' opts0 init)) = Suc (cacheCount init)
   \<and> cached (snd (compilePath env0 ''/a'' opts0 init)) False False ''/a''
       = Some \<lparr>oid = nextOid init, re = (\<lambda>p. if p = ''/a'' then Some (p, []) else None), keys = []\<rparr>"
proof -
  let ?S = "run env0 (fillRequests cacheLimit) init"
  let ?one = "[Request (Loc \<lparr>pathname = [], search = [], hash = []\<rparr>)
          \<lparr>path = replicate cacheLimit CHR ''a'', mquery = None, mhash = None\<rparr> opts0]"
  have full: "cacheCount ?S = cacheLimit"
    using fill_state [of cacheLimit] by simp
  have miss: "cached ?S False False ''/new'' = None"
  proof (rule ccontr)
    assume "cached ?S False False ''/new'' \<noteq> None"
    then obtain i where "''/new'' = replicate i CHR ''a''"
      using fill_state [of cacheLimit] by blast
    then show False by (cases i) simp_all
  qed
  have new: "pathToRegexp env0 ''/new'' (\<not> False) False
               = Some (\<lambda>p. if p = ''/new'' then Some (p, []) else None, [])"
    by (simp add: env0_sel pathToRegexp0_def)
  have a: "pathToRegexp env0 ''/a'' (\<not> False) False
               = Some (\<lambda>p. if p = ''/a'' then Some (p, []) else None, [])"
    by (simp add: env0_sel pathToRegexp0_def)
  have i: "cached init False False ''/a'' = None" "cacheCount init < cacheLimit"
    by (simp_all add: cached_def init_def cacheLimit_def)
  have more: "run env0 (fillRequests (Suc cacheLimit)) init = run env0 ?one ?S"
    by (simp only: fillRequests_Suc run_append)
  have top: "fst (compilePath env0 ''/new'' opts0 ?S)
       = Inr (Compiled \<lparr>oid = nextOid ?S, re = (\<lambda>p. if p = ''/new'' then Some (p, []) else None), keys = []\<rparr>)
     \<and> (\<forall>pa' st' p'. cached (snd (compilePath env0 ''/new'' opts0 ?S)) pa' st' p' = cached ?S pa' st' p')
     \<and> cacheCount (snd (compilePath env0 ''/new'' opts0 ?S)) = cacheLimit
     \<and> fst (compilePath env0 ''/new'' opts0 (snd (compilePath env0 ''/new'' opts0 ?S)))
       = Inr (Compiled \<lparr>oid = Suc (nextOid ?S), re = (\<lambda>p. if p = ''/new'' then Some (p, []) else None), keys = []\<rparr>)
     \<and> cacheCount (run env0 ?one ?S) = cacheLimit"
    using full miss new new_a_own
      compilePath_latch [of env0 "[]" ?S opts0 "''/new''"
        "\<lambda>p. if p = ''/new'' then Some (p, []) else None" "[]" ?one]
    unfolding opts0_flags by (simp (no_asm_use), blast)
  have low: "cached (snd (compilePath env0 ''/a'' opts0 init)) False False ''/a''
       = Some \<lparr>oid = nextOid init, re = (\<lambda>p. if p = ''/a'' then Some (p, []) else None), keys = []\<rparr>
     \<and> cacheCount (snd (compilePath env0 ''/a'' opts0 init)) = Suc (cacheCount init)"
    using i a new_a_own
      compilePath_latch [of env0 "[]" init opts0 "''/a''"
        "\<lambda>p. if p = ''/a'' then Some (p, []) else None" "[]" "[]"]
    unfolding opts0_flags by (simp (no_asm_use), blast)
  show ?thesis
    using full miss i top low unfolding more by simp
qed

text \<open>
  C5, at an input where the code leaves it. The pattern \<open>constructor\<close> has never been
  compiled, nothing is stored for it and the counter is 0, below the limit.
  \<open>compilePath\<close> finds the member \<open>constructor\<close> that the bucket inherits and returns
  it: \<open>pathToRegexp\<close> is not called, nothing is stored, the counter stays 0 and no
  object is allocated. \<open>matchUrl\<close> then throws a \<open>TypeError\<close>, for every location.
\<close>

theorem compilePath_inherited_miss:
  "cached init False False ''constructor'' = None
   \<and> cacheCount init < cacheLimit
   \<and> fst (compilePath env ''constructor'' opts0 init) = Inr (Inherited ''constructor'')
   \<and> cached (snd (compilePath env ''constructor'' opts0 init)) False False ''constructor'' = None
   \<and> cacheCount (snd (compilePath env ''constructor'' opts0 init)) = 0
   \<and> nextOid (snd (compilePath env ''constructor'' opts0 init)) = 0
   \<and> fst (matchUrl env l \<lparr>path = ''constructor'', mquery = None, mhash = None\<rparr> opts0 init)
       = Inl TypeError"
proof -
  have a: "cached init False False ''constructor'' = None" "cacheCount init < cacheLimit"
    by (simp_all add: cached_def init_def cacheLimit_def)
  have b: "fst (compilePath env ''constructor'' opts0 init) = Inr (Inherited ''constructor'')"
    "cached (snd (compilePath env ''constructor'' opts0 init)) False False ''constructor'' = None"
    "cacheCount (snd (compilePath env ''constructor'' opts0 init)) = 0"
    "nextOid (snd (compilePath env ''constructor'' opts0 init)) = 0"
    using a(1) compilePath_inherited [of init opts0 "''constructor''" env]
    by (simp_all add: opts0_flags inherited_names init_def)
  have c: "fst (matchUrl env l \<lparr>path = ''constructor'', mquery = None, mhash = None\<rparr> opts0 init)
       = Inl TypeError"
    by (simp add: matchUrl_fst matchPath_fst b(1))
  show ?thesis using a b c by simp
qed

end
